theory Spec2Isabelle
  imports Complex_Main
begin

section \<open>The code fragments of \<open>docs_src/tutorial.itemlist.ipynb\<close>\<close>

text \<open>
  The notebook quotes a handful of methods of the library it documents. Each of them is
  embedded below as a HOL function that follows the quoted Python line by line. Python
  exceptions are values of \<open>py_error\<close>; a method that may raise returns
  \<open>py_error + 'a\<close> with \<open>Inl\<close> for the exception.
\<close>

datatype py_error =
    IndexError | ValueError | TypeError | AttributeError | IOError | OverflowError

subsection \<open>Tensors of floats\<close>

text \<open>
  A tensor entry is an IEEE value: a finite number, an infinity or NaN. Finite values are
  taken from the reals, which contain every representable float. Comparisons follow
  IEEE 754: every comparison with NaN is false.
\<close>

datatype float_val = NaN | NegInf | Fin real | PosInf

fun float_le :: "float_val \<Rightarrow> float_val \<Rightarrow> bool" where
  "float_le NaN _ = False"
| "float_le _ NaN = False"
| "float_le NegInf _ = True"
| "float_le _ PosInf = True"
| "float_le (Fin a) (Fin b) = (a \<le> b)"
| "float_le _ _ = False"

definition float_ge :: "float_val \<Rightarrow> float_val \<Rightarrow> bool" where
  "float_ge a b = float_le b a"

text \<open>
  The floating dtypes of torch are the IEEE binary formats: \<open>prec\<close> is the number of
  bits of the significand (the hidden bit counted), \<open>emax\<close> the largest exponent and
  \<open>emin\<close> the exponent of the smallest normal number; \<open>max_finite\<close> is the largest
  finite value.
\<close>

datatype float_dtype = Float16 | Float32 | Float64

fun prec :: "float_dtype \<Rightarrow> int" where
  "prec Float16 = 11"
| "prec Float32 = 24"
| "prec Float64 = 53"

fun emax :: "float_dtype \<Rightarrow> int" where
  "emax Float16 = 15"
| "emax Float32 = 127"
| "emax Float64 = 1023"

definition emin :: "float_dtype \<Rightarrow> int" where
  "emin d = 1 - emax d"

definition max_finite :: "float_dtype \<Rightarrow> real" where
  "max_finite d = (2 powi prec d - 1) * 2 powi (emax d - prec d + 1)"

text \<open>
  Rounding to a dtype, to nearest with ties to even. \<open>exponent d a\<close> is the exponent of
  the binade of the magnitude \<open>a\<close>: the largest \<open>e \<le> emax\<close> with \<open>2 powi e \<le> a\<close>, and
  \<open>emin\<close> for the subnormal range; it is found by counting down from \<open>emax\<close>.
  \<open>quantum d a\<close> is the distance between neighbouring values of the dtype in that
  binade. A number is rounded by rounding its magnitude, as a multiple of the quantum,
  to the nearest integer.
\<close>

fun find_exp :: "nat \<Rightarrow> int \<Rightarrow> real \<Rightarrow> int" where
  "find_exp 0 e a = e"
| "find_exp (Suc k) e a = (if 2 powi e \<le> a then e else find_exp k (e - 1) a)"

definition exponent :: "float_dtype \<Rightarrow> real \<Rightarrow> int" where
  "exponent d a = find_exp (nat (emax d - emin d)) (emax d) a"

definition quantum :: "float_dtype \<Rightarrow> real \<Rightarrow> real" where
  "quantum d a = 2 powi (exponent d a - (prec d - 1))"

definition round_half_even :: "real \<Rightarrow> int" where
  "round_half_even m =
     (let f = \<lfloor>m\<rfloor>; r = m - of_int f in
      if r < 1 / 2 then f else if 1 / 2 < r then f + 1 else if even f then f else f + 1)"

definition round_mag :: "float_dtype \<Rightarrow> real \<Rightarrow> real" where
  "round_mag d a = of_int (round_half_even (a / quantum d a)) * quantum d a"

definition round_to :: "float_dtype \<Rightarrow> real \<Rightarrow> real" where
  "round_to d x = sgn x * round_mag d \<bar>x\<bar>"

text \<open>
  A Python scalar that meets a tensor in an operation is converted to the dtype of the
  tensor first: an infinity or NaN stays what it is, a finite number beyond the range
  of the dtype is refused with an exception, and any other number is rounded.
\<close>

definition scalar_to_dtype :: "float_dtype \<Rightarrow> float_val \<Rightarrow> py_error + float_val" where
  "scalar_to_dtype d s =
     (case s of
        Fin x \<Rightarrow> if max_finite d < \<bar>x\<bar> then Inl OverflowError else Inr (Fin (round_to d x))
      | _ \<Rightarrow> Inr s)"

text \<open>
  A tensor is its shape together with its entries in row-major order, as a contiguous
  torch tensor stores them. A position of the tensor is an offset into \<open>elems\<close>. A
  tensor of floats has its dtype besides.
\<close>

record 'a tensor =
  shape :: "nat list"
  elems :: "'a list"

record float_tensor = "float_val tensor" +
  dtype :: float_dtype

text \<open>
  \<^verbatim>\<open>pred >= thresh\<close> with a Python scalar on the right converts the scalar to the dtype
  of \<open>pred\<close>, compares every entry with the converted scalar and yields a boolean tensor
  of the shape of \<open>pred\<close>.
\<close>

definition tensor_ge :: "float_tensor \<Rightarrow> float_val \<Rightarrow> py_error + bool tensor" where
  "tensor_ge t s =
     (case scalar_to_dtype (dtype t) s of
        Inl e \<Rightarrow> Inl e
      | Inr c \<Rightarrow> Inr \<lparr>shape = shape t, elems = map (\<lambda>x. float_ge x c) (elems t)\<rparr>)"

text \<open>
  \<^verbatim>\<open>.float()\<close> converts to \<open>Float32\<close>, entry by entry: True to 1.0 and False to 0.0.
\<close>

definition bool_to_float :: "bool \<Rightarrow> float_val" where
  "bool_to_float b = (if b then Fin 1 else Fin 0)"

definition tensor_float :: "bool tensor \<Rightarrow> float_tensor" where
  "tensor_float t = \<lparr>shape = shape t, elems = map bool_to_float (elems t), dtype = Float32\<rparr>"

subsection \<open>\<open>MultiCategoryList.analyze_pred\<close>\<close>

text \<open>
  \<^verbatim>\<open>def analyze_pred(self, pred, thresh:float=0.5): return (pred >= thresh).float()\<close>

  The keyword argument is optional: \<open>None\<close> stands for a call that leaves it out.
\<close>

definition thresh_arg :: "float_val option \<Rightarrow> float_val" where
  "thresh_arg a = (case a of None \<Rightarrow> Fin (1 / 2) | Some t \<Rightarrow> t)"

definition analyze_pred :: "float_tensor \<Rightarrow> float_val option \<Rightarrow> py_error + float_tensor" where
  "analyze_pred pred thresh =
     (case tensor_ge pred (thresh_arg thresh) of
        Inl e \<Rightarrow> Inl e
      | Inr b \<Rightarrow> Inr (tensor_float b))"

subsection \<open>\<open>ImageItemList.get\<close> and \<open>ImageItemList.open\<close>\<close>

text \<open>
  The state of an \<open>ImageItemList\<close> that \<open>get\<close> touches: the stored references
  \<open>items\<close> (filenames) and the dictionary \<open>sizes\<close>, keyed by the index as the caller
  passed it.
\<close>

record ('fn, 'sz) image_item_list =
  items :: "'fn list"
  sizes :: "int \<rightharpoonup> 'sz"

text \<open>
  Python indexing of a sequence: a negative index counts from the end, an index outside
  \<open>-len .. len - 1\<close> raises \<open>IndexError\<close>.
\<close>

definition py_index :: "'a list \<Rightarrow> int \<Rightarrow> py_error + 'a" where
  "py_index xs i =
     (if 0 \<le> i \<and> i < int (length xs) then Inr (xs ! nat i)
      else if - int (length xs) \<le> i \<and> i < 0 then Inr (xs ! nat (int (length xs) + i))
      else Inl IndexError)"

text \<open>
  Modelled from the spec: \<open>ItemList.get\<close>, the \<^verbatim>\<open>super().get(i)\<close> of the first line,
  is not quoted in the notebook. Its prose says that the line
  "basically looks at \<^verbatim>\<open>self.items[i]\<close> (which is a filename)".
\<close>

definition ItemList_get :: "('fn, 'sz) image_item_list \<Rightarrow> int \<Rightarrow> py_error + 'fn" where
  "ItemList_get self i = py_index (items self) i"

text \<open>
  \<^verbatim>\<open>def open(self, fn): return open_image(fn)\<close>

  \<open>open_image\<close> reads a file and belongs to the library; it is a parameter, and it may
  raise. The method is named \<open>open_fn\<close> because \<open>open\<close> is a constant of HOL.
\<close>

definition open_fn :: "('fn \<Rightarrow> py_error + 'img) \<Rightarrow> 'fn \<Rightarrow> py_error + 'img" where
  "open_fn open_image fn = open_image fn"

text \<open>
  \<^verbatim>\<open>
  def get(self, i):
      fn = super().get(i)
      res = self.open(fn)
      self.sizes[i] = res.size
      return res
  \<close>
  The attribute \<^verbatim>\<open>res.size\<close> of the opened image is the parameter \<open>size_of\<close>. The method
  returns the item together with the updated list.
\<close>

definition get ::
  "('fn \<Rightarrow> py_error + 'img) \<Rightarrow> ('img \<Rightarrow> 'sz) \<Rightarrow> ('fn, 'sz) image_item_list \<Rightarrow> int
     \<Rightarrow> py_error + ('img \<times> ('fn, 'sz) image_item_list)" where
  "get open_image size_of self i =
     (case ItemList_get self i of
        Inl e \<Rightarrow> Inl e
      | Inr fn \<Rightarrow>
          (case open_fn open_image fn of
             Inl e \<Rightarrow> Inl e
           | Inr res \<Rightarrow> Inr (res, self\<lparr>sizes := (sizes self)(i \<mapsto> size_of res)\<rparr>)))"

subsection \<open>\<open>SegmentationProcessor\<close>\<close>

text \<open>
  Python objects carry their attributes in a dictionary from names to values; an
  \<open>ItemList\<close> is such a dictionary. The values that matter here are \<open>None\<close>, integers,
  strings and lists.
\<close>

datatype pyval = PNone | PInt int | PStr string | PList "pyval list"

type_synonym pyobj = "string \<rightharpoonup> pyval"

definition py_getattr :: "pyobj \<Rightarrow> string \<Rightarrow> py_error + pyval" where
  "py_getattr obj a = (case obj a of None \<Rightarrow> Inl AttributeError | Some v \<Rightarrow> Inr v)"

definition py_setattr :: "pyobj \<Rightarrow> string \<Rightarrow> pyval \<Rightarrow> pyobj" where
  "py_setattr obj a v = obj(a \<mapsto> v)"

fun py_len :: "pyval \<Rightarrow> py_error + nat" where
  "py_len (PList xs) = Inr (length xs)"
| "py_len (PStr s) = Inr (length s)"
| "py_len _ = Inl TypeError"

text \<open>
  \<^verbatim>\<open>
  class SegmentationProcessor(PreProcessor):
      def __init__(self, ds:ItemList): self.classes = ds.classes
      def process(self, ds:ItemList):  ds.classes,ds.c = self.classes,len(self.classes)
  \<close>
  The processor's state is the one attribute \<open>classes\<close>. In \<open>process\<close> the right-hand
  side is evaluated first, so a \<open>len\<close> that raises leaves \<open>ds\<close> as it was; then
  \<open>ds.classes\<close> is assigned, then \<open>ds.c\<close>. \<open>process\<close> returns the processor and the
  dataset as they are after the call.
\<close>

record segmentation_processor =
  classes :: pyval

definition SegmentationProcessor_init :: "pyobj \<Rightarrow> py_error + segmentation_processor" where
  "SegmentationProcessor_init ds =
     (case py_getattr ds ''classes'' of
        Inl e \<Rightarrow> Inl e
      | Inr v \<Rightarrow> Inr \<lparr>classes = v\<rparr>)"

definition process ::
  "segmentation_processor \<Rightarrow> pyobj \<Rightarrow> py_error + (segmentation_processor \<times> pyobj)" where
  "process self ds =
     (case py_len (classes self) of
        Inl e \<Rightarrow> Inl e
      | Inr n \<Rightarrow>
          Inr (self, py_setattr (py_setattr ds ''classes'' (classes self)) ''c'' (PInt (int n))))"

text \<open>Two calls in a row, the second on what the first left.\<close>

definition process_twice ::
  "segmentation_processor \<Rightarrow> pyobj \<Rightarrow> py_error + (segmentation_processor \<times> pyobj)" where
  "process_twice self ds =
     (case process self ds of
        Inl e \<Rightarrow> Inl e
      | Inr (self', ds') \<Rightarrow> process self' ds')"

subsection \<open>\<open>MyCustomItemList\<close>\<close>











subsection \<open>Figures: \<open>plt.subplots\<close> and what is drawn\<close>

text \<open>
  \<^verbatim>\<open>rows = int(math.sqrt(len(xs)))\<close>

  \<open>math.sqrt\<close> is the correctly rounded square root of a double and \<open>int\<close> truncates,
  which for the length of a list that fits in memory is the floor of the real square
  root. \<open>isqrt_upto n k\<close> is the largest \<open>r \<le> k\<close> with \<open>r * r \<le> n\<close>; it computes the same
  number (\<open>py_int_sqrt_code\<close> below).
\<close>

definition py_int_sqrt :: "nat \<Rightarrow> nat" where
  "py_int_sqrt n = nat \<lfloor>sqrt (real n)\<rfloor>"

fun isqrt_upto :: "nat \<Rightarrow> nat \<Rightarrow> nat" where
  "isqrt_upto n 0 = 0"
| "isqrt_upto n (Suc k) = (if Suc k * Suc k \<le> n then Suc k else isqrt_upto n k)"

text \<open>
  An \<open>Axes\<close> is named by its row and column in the grid of the figure. With its default
  \<open>squeeze=True\<close>, \<^verbatim>\<open>plt.subplots(nrows, ncols)\<close> returns, beside the figure, a single
  \<open>Axes\<close> object for a 1 by 1 grid, a one-dimensional array for a grid of one row or one
  column, and a two-dimensional array otherwise; a grid without rows or columns is
  refused with \<open>ValueError\<close>.
\<close>

datatype axes = Axes nat nat

datatype axs_obj = AxesObj axes | Arr1 "axes list" | Arr2 "axes list list"

definition subplots :: "nat \<Rightarrow> nat \<Rightarrow> py_error + axs_obj" where
  "subplots nrows ncols =
     (if nrows = 0 \<or> ncols = 0 then Inl ValueError
      else if nrows = 1 \<and> ncols = 1 then Inr (AxesObj (Axes 0 0))
      else if nrows = 1 then Inr (Arr1 (map (Axes 0) [0..<ncols]))
      else if ncols = 1 then Inr (Arr1 (map (\<lambda>r. Axes r 0) [0..<nrows]))
      else Inr (Arr2 (map (\<lambda>r. map (Axes r) [0..<ncols]) [0..<nrows])))"

text \<open>
  \<^verbatim>\<open>axs.flatten()\<close> lists the entries of an array row by row; an \<open>Axes\<close> object has no
  such method. \<^verbatim>\<open>axs[i, j]\<close> needs a two-dimensional array: a one-dimensional one
  raises \<open>IndexError\<close> (too many indices), an \<open>Axes\<close> object is not subscriptable.
\<close>

fun flatten :: "axs_obj \<Rightarrow> py_error + axs_obj list" where
  "flatten (Arr2 rs) = Inr (map AxesObj (concat rs))"
| "flatten (Arr1 r) = Inr (map AxesObj r)"
| "flatten (AxesObj a) = Inl AttributeError"

fun axs_index2 :: "axs_obj \<Rightarrow> nat \<Rightarrow> nat \<Rightarrow> py_error + axs_obj" where
  "axs_index2 (Arr2 rs) i j =
     (if i < length rs \<and> j < length (rs ! i) then Inr (AxesObj (rs ! i ! j)) else Inl IndexError)"
| "axs_index2 (Arr1 r) i j = Inl IndexError"
| "axs_index2 (AxesObj a) i j = Inl TypeError"

text \<open>
  What a display method does is the list of its effects in order: \<open>Show x ax y\<close> is the
  call \<^verbatim>\<open>x.show(ax=ax, y=y, **kwargs)\<close>, \<open>ReadX i\<close> and \<open>ReadY i\<close> are the reads \<^verbatim>\<open>xs[i]\<close>
  and \<^verbatim>\<open>ys[i]\<close>, \<open>Suptitle\<close> is \<^verbatim>\<open>fig.suptitle(...)\<close> and \<open>TightLayout\<close> is
  \<^verbatim>\<open>plt.tight_layout()\<close>. \<open>figsize\<close> and \<open>kwargs\<close> are handed on and decide nothing.
\<close>

datatype ('x, 'y) event =
    ReadX nat | ReadY nat | Show 'x axs_obj 'y | Suptitle | TightLayout

subsection \<open>\<open>Image.show_xys\<close>\<close>

text \<open>
  \<^verbatim>\<open>
  def show_xys(self, xs, ys, figsize:Tuple[int,int]=(9,10), **kwargs):
      rows = int(math.sqrt(len(xs)))
      fig, axs = plt.subplots(rows,rows,figsize=figsize)
      for i, ax in enumerate(axs.flatten() if rows > 1 else [axs]):
          xs[i].show(ax=ax, y=ys[i], **kwargs)
      plt.tight_layout()
  \<close>
  \<open>show_xys_loop xs ys i axl\<close> is the loop from counter \<open>i\<close> on, \<open>axl\<close> being the axes
  still to come.
\<close>

fun show_xys_loop ::
  "'x list \<Rightarrow> 'y list \<Rightarrow> nat \<Rightarrow> axs_obj list \<Rightarrow> py_error + ('x, 'y) event list" where
  "show_xys_loop xs ys i [] = Inr []"
| "show_xys_loop xs ys i (ax # axl) =
     (case py_index xs (int i) of
        Inl e \<Rightarrow> Inl e
      | Inr x \<Rightarrow>
          (case py_index ys (int i) of
             Inl e \<Rightarrow> Inl e
           | Inr y \<Rightarrow>
               (case show_xys_loop xs ys (Suc i) axl of
                  Inl e \<Rightarrow> Inl e
                | Inr tr \<Rightarrow> Inr (ReadX i # ReadY i # Show x ax y # tr))))"

definition show_xys :: "'x list \<Rightarrow> 'y list \<Rightarrow> py_error + ('x, 'y) event list" where
  "show_xys xs ys =
     (let rows = py_int_sqrt (length xs) in
      case subplots rows rows of
        Inl e \<Rightarrow> Inl e
      | Inr axs \<Rightarrow>
          (case (if rows > 1 then flatten axs else Inr [axs]) of
             Inl e \<Rightarrow> Inl e
           | Inr axl \<Rightarrow>
               (case show_xys_loop xs ys 0 axl of
                  Inl e \<Rightarrow> Inl e
                | Inr tr \<Rightarrow> Inr (tr @ [TightLayout]))))"

text \<open>The positions of \<open>xs\<close> and of \<open>ys\<close> that a run has read, in order.\<close>

fun reads_x :: "('x, 'y) event list \<Rightarrow> nat list" where
  "reads_x [] = []"
| "reads_x (ReadX i # tr) = i # reads_x tr"
| "reads_x (_ # tr) = reads_x tr"

fun reads_y :: "('x, 'y) event list \<Rightarrow> nat list" where
  "reads_y [] = []"
| "reads_y (ReadY i # tr) = i # reads_y tr"
| "reads_y (_ # tr) = reads_y tr"

subsection \<open>\<open>Image.show_xyzs\<close>\<close>

text \<open>
  \<^verbatim>\<open>
  def show_xyzs(self, xs, ys, zs, figsize:Tuple[int,int]=None, **kwargs):
      figsize = ifnone(figsize, (6,3*len(xs)))
      fig,axs = plt.subplots(len(xs), 2, figsize=figsize)
      fig.suptitle('Ground truth / Predictions', weight='bold', size=14)
      for i,(x,y,z) in enumerate(zip(xs,ys,zs)):
          x.show(ax=axs[i,0], y=y, **kwargs)
          x.show(ax=axs[i,1], y=z, **kwargs)
  \<close>
  Python's \<open>zip\<close> stops with the shortest list, as \<open>zip\<close> of HOL does.
\<close>

fun show_xyzs_loop ::
  "axs_obj \<Rightarrow> nat \<Rightarrow> ('x \<times> 'y \<times> 'y) list \<Rightarrow> py_error + ('x, 'y) event list" where
  "show_xyzs_loop axs i [] = Inr []"
| "show_xyzs_loop axs i ((x, y, z) # rest) =
     (case axs_index2 axs i 0 of
        Inl e \<Rightarrow> Inl e
      | Inr a0 \<Rightarrow>
          (case axs_index2 axs i 1 of
             Inl e \<Rightarrow> Inl e
           | Inr a1 \<Rightarrow>
               (case show_xyzs_loop axs (Suc i) rest of
                  Inl e \<Rightarrow> Inl e
                | Inr tr \<Rightarrow> Inr (Show x a0 y # Show x a1 z # tr))))"

definition show_xyzs :: "'x list \<Rightarrow> 'y list \<Rightarrow> 'y list \<Rightarrow> py_error + ('x, 'y) event list" where
  "show_xyzs xs ys zs =
     (case subplots (length xs) 2 of
        Inl e \<Rightarrow> Inl e
      | Inr axs \<Rightarrow>
          (case show_xyzs_loop axs 0 (zip xs (zip ys zs)) of
             Inl e \<Rightarrow> Inl e
           | Inr tr \<Rightarrow> Inr (Suptitle # tr)))"

section \<open>Properties\<close>

subsection \<open>Order on float values\<close>

lemma float_le_trans: "float_le a b \<Longrightarrow> float_le b c \<Longrightarrow> float_le a c"
  by (cases a; cases b; cases c) auto

lemma float_le_bool_to_float:
  "float_le (bool_to_float p) (bool_to_float q) = (p \<longrightarrow> q)"
  by (simp add: bool_to_float_def)

subsection \<open>Rounding to a dtype\<close>

lemma find_exp_spec:
  "a < 2 powi (e0 + 1) \<Longrightarrow>
     e0 - int k \<le> find_exp k e0 a \<and> find_exp k e0 a \<le> e0 \<and>
     a < 2 powi (find_exp k e0 a + 1) \<and>
     (find_exp k e0 a = e0 - int k \<or> 2 powi (find_exp k e0 a) \<le> a)"
proof (induction k arbitrary: e0)
  case 0
  then show ?case by simp
next
  case (Suc k)
  show ?case
  proof (cases "2 powi e0 \<le> a")
    case True
    with Suc.prems show ?thesis by simp
  next
    case False
    then have "a < 2 powi (e0 - 1 + 1)" by simp
    from Suc.IH [OF this] False show ?thesis by auto
  qed
qed

lemma find_exp_unique:
  assumes "e0 - int k \<le> e" "e \<le> e0" "a < 2 powi (e + 1)" "e = e0 - int k \<or> 2 powi e \<le> a"
  shows "find_exp k e0 a = e"
  using assms
proof (induction k arbitrary: e0)
  case 0
  then show ?case by simp
next
  case (Suc k)
  show ?case
  proof (cases "e = e0")
    case True
    with Suc.prems show ?thesis by auto
  next
    case False
    with Suc.prems have lt: "e < e0" by simp
    then have "e + 1 \<le> e0" by simp
    then have "(2::real) powi (e + 1) \<le> 2 powi e0"
      by (intro power_int_increasing) simp_all
    with Suc.prems(3) have "\<not> 2 powi e0 \<le> a" by simp
    moreover have "find_exp k (e0 - 1) a = e"
      using Suc.prems lt by (intro Suc.IH) auto
    ultimately show ?thesis by simp
  qed
qed

lemma round_half_even_bounds: "\<lfloor>m\<rfloor> \<le> round_half_even m \<and> round_half_even m \<le> \<lfloor>m\<rfloor> + 1"
  by (simp add: round_half_even_def Let_def)

lemma round_half_even_mono:
  assumes "m \<le> n"
  shows "round_half_even m \<le> round_half_even n"
proof (cases "\<lfloor>m\<rfloor> < \<lfloor>n\<rfloor>")
  case True
  have "round_half_even m \<le> \<lfloor>m\<rfloor> + 1"
    using round_half_even_bounds by blast
  also have "\<dots> \<le> \<lfloor>n\<rfloor>"
    using True by simp
  also have "\<dots> \<le> round_half_even n"
    using round_half_even_bounds by blast
  finally show ?thesis .
next
  case False
  moreover have "\<lfloor>m\<rfloor> \<le> \<lfloor>n\<rfloor>"
    using assms by (rule floor_mono)
  ultimately have eq: "\<lfloor>m\<rfloor> = \<lfloor>n\<rfloor>"
    by simp
  then have "m - of_int \<lfloor>m\<rfloor> \<le> n - of_int \<lfloor>n\<rfloor>"
    using assms by simp
  then show ?thesis
    unfolding round_half_even_def Let_def eq by auto
qed

lemma round_half_even_of_int: "round_half_even (of_int k) = k"
  by (simp add: round_half_even_def)

lemma round_half_even_nonneg: "0 \<le> m \<Longrightarrow> 0 \<le> round_half_even m"
  using round_half_even_mono [of 0 m] round_half_even_of_int [of 0] by simp

lemma emin_le_emax: "emin d \<le> emax d"
  by (cases d) (simp_all add: emin_def)

lemma prec_pos: "1 \<le> prec d"
  by (cases d) simp_all

lemma max_finite_less: "max_finite d < 2 powi (emax d + 1)"
proof -
  have "max_finite d < 2 powi prec d * 2 powi (emax d - prec d + 1)"
    unfolding max_finite_def by (intro mult_strict_right_mono) simp_all
  also have "\<dots> = 2 powi (emax d + 1)"
    by (simp add: power_int_add [symmetric])
  finally show ?thesis .
qed

lemma exponent_spec:
  assumes "a \<le> max_finite d"
  shows "emin d \<le> exponent d a \<and> exponent d a \<le> emax d \<and>
    a < 2 powi (exponent d a + 1) \<and> (exponent d a = emin d \<or> 2 powi (exponent d a) \<le> a)"
proof -
  have "a < 2 powi (emax d + 1)"
    using assms max_finite_less [of d] by simp
  from find_exp_spec [OF this, of "nat (emax d - emin d)"] emin_le_emax [of d]
  show ?thesis
    by (simp add: exponent_def)
qed

lemma exponent_mono:
  assumes "a \<le> b" "b \<le> max_finite d"
  shows "exponent d a \<le> exponent d b"
proof (rule ccontr)
  assume "\<not> exponent d a \<le> exponent d b"
  then have lt: "exponent d b + 1 \<le> exponent d a"
    by simp
  from assms have a: "a \<le> max_finite d"
    by simp
  from exponent_spec [OF a] exponent_spec [OF assms(2)] lt
  have "2 powi (exponent d a) \<le> a" and "b < 2 powi (exponent d b + 1)"
    by auto
  moreover have "(2::real) powi (exponent d b + 1) \<le> 2 powi (exponent d a)"
    using lt by (intro power_int_increasing) simp_all
  ultimately show False
    using assms(1) by simp
qed

lemma round_mag_upper:
  assumes "0 \<le> a" "a \<le> max_finite d"
  shows "round_mag d a \<le> 2 powi (exponent d a + 1)"
proof -
  let ?q = "quantum d a"
  have q: "0 < ?q"
    by (simp add: quantum_def)
  have "a \<le> 2 powi (exponent d a + 1)"
    using exponent_spec [OF assms(2)] by simp
  then have "a / ?q \<le> 2 powi (exponent d a + 1) / ?q"
    using q by (simp add: divide_right_mono)
  also have "2 powi (exponent d a + 1) / ?q = 2 powi prec d"
    by (simp add: quantum_def power_int_diff [symmetric])
  also have "\<dots> = of_int (2 ^ nat (prec d))"
    using prec_pos [of d] by (simp add: power_int_def)
  finally have "round_half_even (a / ?q) \<le> 2 ^ nat (prec d)"
    using round_half_even_mono round_half_even_of_int by metis
  then have "real_of_int (round_half_even (a / ?q)) \<le> of_int (2 ^ nat (prec d))"
    by (simp only: of_int_le_iff)
  then have "round_mag d a \<le> of_int (2 ^ nat (prec d)) * ?q"
    unfolding round_mag_def using q by (intro mult_right_mono) simp_all
  also have "of_int (2 ^ nat (prec d)) = (2::real) powi prec d"
    using prec_pos [of d] by (simp add: power_int_def)
  also have "2 powi prec d * ?q = 2 powi (exponent d a + 1)"
    by (simp add: quantum_def power_int_add [symmetric])
  finally show ?thesis .
qed

lemma round_mag_lower:
  assumes "2 powi (exponent d a) \<le> a"
  shows "2 powi (exponent d a) \<le> round_mag d a"
proof -
  let ?q = "quantum d a"
  have q: "0 < ?q"
    by (simp add: quantum_def)
  have "2 powi (exponent d a) / ?q \<le> a / ?q"
    using assms q by (simp add: divide_right_mono)
  moreover have "2 powi (exponent d a) / ?q = 2 powi (prec d - 1)"
    by (simp add: quantum_def power_int_diff [symmetric])
  moreover have "(2::real) powi (prec d - 1) = of_int (2 ^ nat (prec d - 1))"
    using prec_pos [of d] by (simp add: power_int_def)
  ultimately have "round_half_even (of_int (2 ^ nat (prec d - 1))) \<le> round_half_even (a / ?q)"
    by (intro round_half_even_mono) simp
  then have "2 ^ nat (prec d - 1) \<le> round_half_even (a / ?q)"
    by (simp only: round_half_even_of_int)
  then have "real_of_int (2 ^ nat (prec d - 1)) \<le> of_int (round_half_even (a / ?q))"
    by (simp only: of_int_le_iff)
  then have "of_int (2 ^ nat (prec d - 1)) * ?q \<le> round_mag d a"
    unfolding round_mag_def using q by (intro mult_right_mono) simp_all
  moreover have "of_int (2 ^ nat (prec d - 1)) = (2::real) powi (prec d - 1)"
    using prec_pos [of d] by (simp add: power_int_def)
  moreover have "2 powi (prec d - 1) * ?q = 2 powi (exponent d a)"
    by (simp add: quantum_def power_int_add [symmetric])
  ultimately show ?thesis
    by simp
qed

lemma round_mag_mono:
  assumes "0 \<le> a" "a \<le> b" "b \<le> max_finite d"
  shows "round_mag d a \<le> round_mag d b"
proof (cases "exponent d a = exponent d b")
  case True
  then have q: "quantum d a = quantum d b"
    by (simp add: quantum_def)
  have pos: "0 < quantum d b"
    by (simp add: quantum_def)
  then have "a / quantum d b \<le> b / quantum d b"
    using assms(2) by (simp add: divide_right_mono)
  then have "round_half_even (a / quantum d b) \<le> round_half_even (b / quantum d b)"
    by (rule round_half_even_mono)
  then have "real_of_int (round_half_even (a / quantum d b)) \<le> of_int (round_half_even (b / quantum d b))"
    by (simp only: of_int_le_iff)
  then show ?thesis
    unfolding round_mag_def q using pos by (intro mult_right_mono) simp_all
next
  case False
  with exponent_mono [OF assms(2,3)] have lt: "exponent d a + 1 \<le> exponent d b"
    by simp
  from assms have a: "a \<le> max_finite d"
    by simp
  have "emin d \<le> exponent d a"
    using exponent_spec [OF a] by simp
  with lt exponent_spec [OF assms(3)] have big: "2 powi (exponent d b) \<le> b"
    by auto
  have "round_mag d a \<le> 2 powi (exponent d a + 1)"
    using assms(1) a by (rule round_mag_upper)
  also have "\<dots> \<le> 2 powi (exponent d b)"
    using lt by (intro power_int_increasing) simp_all
  also have "\<dots> \<le> round_mag d b"
    using big by (rule round_mag_lower)
  finally show ?thesis .
qed

lemma round_mag_nonneg: "0 \<le> a \<Longrightarrow> 0 \<le> round_mag d a"
  unfolding round_mag_def
  by (intro mult_nonneg_nonneg) (simp_all add: quantum_def round_half_even_nonneg)

lemma round_to_mono:
  assumes "x \<le> y" "\<bar>x\<bar> \<le> max_finite d" "\<bar>y\<bar> \<le> max_finite d"
  shows "round_to d x \<le> round_to d y"
proof -
  consider "0 \<le> x" | "x < 0" "0 \<le> y" | "y < 0"
    using assms(1) by linarith
  then show ?thesis
  proof cases
    case 1
    with assms have "round_mag d \<bar>x\<bar> \<le> round_mag d \<bar>y\<bar>"
      by (intro round_mag_mono) simp_all
    moreover have "sgn x * round_mag d \<bar>x\<bar> = (if x = 0 then 0 else round_mag d \<bar>x\<bar>)"
      using 1 by (simp add: sgn_if)
    moreover have "sgn y * round_mag d \<bar>y\<bar> = (if y = 0 then 0 else round_mag d \<bar>y\<bar>)"
      using 1 assms(1) by (simp add: sgn_if)
    moreover have "0 \<le> round_mag d \<bar>y\<bar>"
      by (rule round_mag_nonneg) simp
    moreover have "x = 0 \<or> y \<noteq> 0"
      using 1 assms(1) by auto
    ultimately show ?thesis
      unfolding round_to_def by auto
  next
    case 2
    have "0 \<le> round_mag d \<bar>x\<bar>" "0 \<le> round_mag d \<bar>y\<bar>"
      by (rule round_mag_nonneg, simp)+
    with 2 show ?thesis
      unfolding round_to_def by (simp add: sgn_if)
  next
    case 3
    with assms have "round_mag d \<bar>y\<bar> \<le> round_mag d \<bar>x\<bar>"
      by (intro round_mag_mono) simp_all
    with 3 assms(1) show ?thesis
      unfolding round_to_def by (simp add: sgn_if)
  qed
qed





lemma scalar_to_dtype_mono:
  assumes le: "float_le s t"
    and cs: "scalar_to_dtype d s = Inr s'"
    and ct: "scalar_to_dtype d t = Inr t'"
  shows "float_le s' t'"
proof (cases s)
  case (Fin x)
  note s = this
  show ?thesis
  proof (cases t)
    case (Fin y)
    from cs s have bx: "\<bar>x\<bar> \<le> max_finite d" and s': "s' = float_val.Fin (round_to d x)"
      by (auto simp: scalar_to_dtype_def split: if_splits)
    from ct Fin have by': "\<bar>y\<bar> \<le> max_finite d" and t': "t' = float_val.Fin (round_to d y)"
      by (auto simp: scalar_to_dtype_def split: if_splits)
    from le s Fin have "x \<le> y"
      by simp
    then have "round_to d x \<le> round_to d y"
      using bx by' by (rule round_to_mono)
    with s' t' show ?thesis
      by simp
  next
    case NaN
    with le s show ?thesis by simp
  next
    case NegInf
    with le s show ?thesis by simp
  next
    case PosInf
    with ct have "t' = PosInf"
      by (simp add: scalar_to_dtype_def)
    moreover from cs s have "s' = float_val.Fin (round_to d x)"
      by (auto simp: scalar_to_dtype_def split: if_splits)
    ultimately show ?thesis
      by simp
  qed
next
  case NaN
  with le show ?thesis by simp
next
  case NegInf
  with cs have "s' = NegInf"
    by (simp add: scalar_to_dtype_def)
  moreover from le NegInf have "t \<noteq> NaN"
    by (cases t) simp_all
  then have "t' \<noteq> NaN"
    using ct by (cases t) (auto simp: scalar_to_dtype_def split: if_splits)
  ultimately show ?thesis
    by (cases t') simp_all
next
  case PosInf
  with le have "t = PosInf"
    by (cases t) simp_all
  with PosInf cs ct show ?thesis
    by (simp add: scalar_to_dtype_def)
qed



lemma analyze_pred_returns:
  "scalar_to_dtype (dtype pred) (thresh_arg a) = Inr c \<Longrightarrow>
     analyze_pred pred a =
       Inr \<lparr>shape = shape pred, elems = map (\<lambda>x. bool_to_float (float_ge x c)) (elems pred),
            dtype = Float32\<rparr>"
  by (simp add: analyze_pred_def tensor_ge_def tensor_float_def)

lemma analyze_pred_raises:
  "scalar_to_dtype (dtype pred) (thresh_arg a) = Inl e \<Longrightarrow> analyze_pred pred a = Inl e"
  by (simp add: analyze_pred_def tensor_ge_def)

lemma analyze_pred_overflow:
  "max_finite (dtype pred) < \<bar>t\<bar> \<Longrightarrow> analyze_pred pred (Some (Fin t)) = Inl OverflowError"
  by (simp add: analyze_pred_raises scalar_to_dtype_def thresh_arg_def)

lemma analyze_pred_cases:
  "analyze_pred pred a = Inr res \<Longrightarrow>
     \<exists>c. scalar_to_dtype (dtype pred) (thresh_arg a) = Inr c \<and>
       elems res = map (\<lambda>x. bool_to_float (float_ge x c)) (elems pred)"
  by (cases "scalar_to_dtype (dtype pred) (thresh_arg a)")
    (auto simp: analyze_pred_raises analyze_pred_returns)

subsection \<open>\<open>analyze_pred\<close> thresholds entry by entry\<close>





subsection \<open>\<open>analyze_pred\<close> is two-valued and antitone in the threshold\<close>

text \<open>
  C9. Every entry of a tensor that \<open>analyze_pred\<close> returns is exactly 0.0 or 1.0, and
  raising the threshold can only turn entries from 1.0 to 0.0: for thresholds
  \<open>thresh1 \<le> thresh2\<close>, each entry of \<open>analyze_pred pred thresh2\<close> is less than or equal
  to the entry of \<open>analyze_pred pred thresh1\<close> at the same position. The conversion of
  the thresholds to the dtype of \<open>pred\<close> keeps their order, so this holds of the
  thresholds as the caller wrote them.
\<close>

theorem analyze_pred_antitone:
  "(\<forall>res. analyze_pred pred a = Inr res \<longrightarrow> set (elems res) \<subseteq> {Fin 0, Fin 1}) \<and>
   (float_le thresh1 thresh2 \<longrightarrow>
      (\<forall>r1 r2. analyze_pred pred (Some thresh1) = Inr r1 \<and>
                analyze_pred pred (Some thresh2) = Inr r2 \<longrightarrow>
         length (elems r1) = length (elems pred) \<and>
         length (elems r2) = length (elems pred) \<and>
         (\<forall>i < length (elems pred). float_le (elems r2 ! i) (elems r1 ! i))))"
proof -
  have two: "\<forall>res. analyze_pred pred a = Inr res \<longrightarrow> set (elems res) \<subseteq> {Fin 0, Fin 1}"
  proof (intro allI impI)
    fix res assume "analyze_pred pred a = Inr res"
    from analyze_pred_cases [OF this] show "set (elems res) \<subseteq> {Fin 0, Fin 1}"
      by (auto simp: bool_to_float_def)
  qed
  have anti: "length (elems r1) = length (elems pred) \<and>
         length (elems r2) = length (elems pred) \<and>
         (\<forall>i < length (elems pred). float_le (elems r2 ! i) (elems r1 ! i))"
    if le: "float_le thresh1 thresh2"
      and r1: "analyze_pred pred (Some thresh1) = Inr r1"
      and r2: "analyze_pred pred (Some thresh2) = Inr r2" for r1 r2
  proof -
    from analyze_pred_cases [OF r1] obtain c1 where
      c1: "scalar_to_dtype (dtype pred) thresh1 = Inr c1"
      and e1: "elems r1 = map (\<lambda>x. bool_to_float (float_ge x c1)) (elems pred)"
      by (auto simp: thresh_arg_def)
    from analyze_pred_cases [OF r2] obtain c2 where
      c2: "scalar_to_dtype (dtype pred) thresh2 = Inr c2"
      and e2: "elems r2 = map (\<lambda>x. bool_to_float (float_ge x c2)) (elems pred)"
      by (auto simp: thresh_arg_def)
    have c: "float_le c1 c2"
      using le c1 c2 by (rule scalar_to_dtype_mono)
    have "float_ge x c2 \<longrightarrow> float_ge x c1" for x
      using c float_le_trans [of c1 c2 x] by (auto simp: float_ge_def)
    then show ?thesis
      by (simp add: e1 e2 float_le_bool_to_float)
  qed
  from two anti show ?thesis
    by blast
qed

lemma round_to_Float32_quarters:
  "round_to Float32 (1 / 4) = 1 / 4" "round_to Float32 (3 / 4) = 3 / 4"
proof -
  have e1: "exponent Float32 (1 / 4) = -2"
    unfolding exponent_def by (rule find_exp_unique) (simp_all add: emin_def power_int_minus)
  have q1: "quantum Float32 (1 / 4) = 1 / 33554432"
    by (simp add: quantum_def e1 power_int_minus)
  have "round_half_even ((1 / 4) / (1 / 33554432)) = 8388608"
    by (simp add: round_half_even_def Let_def)
  then show "round_to Float32 (1 / 4) = 1 / 4"
    by (simp add: round_to_def round_mag_def q1)
  have e3: "exponent Float32 (3 / 4) = -1"
    unfolding exponent_def by (rule find_exp_unique) (simp_all add: emin_def power_int_minus)
  have q3: "quantum Float32 (3 / 4) = 1 / 16777216"
    by (simp add: quantum_def e3 power_int_minus)
  have "round_half_even ((3 / 4) / (1 / 16777216)) = 12582912"
    by (simp add: round_half_even_def Let_def)
  then show "round_to Float32 (3 / 4) = 3 / 4"
    by (simp add: round_to_def round_mag_def q3)
qed

theorem analyze_pred_antitone_witness:
  "float_le (Fin (1 / 4)) (Fin (3 / 4)) \<and>
   analyze_pred \<lparr>shape = [3], elems = [Fin (1 / 2), Fin 1, NaN], dtype = Float32\<rparr> (Some (Fin (1 / 4)))
     = Inr \<lparr>shape = [3], elems = [Fin 1, Fin 1, Fin 0], dtype = Float32\<rparr> \<and>
   analyze_pred \<lparr>shape = [3], elems = [Fin (1 / 2), Fin 1, NaN], dtype = Float32\<rparr> (Some (Fin (3 / 4)))
     = Inr \<lparr>shape = [3], elems = [Fin 0, Fin 1, Fin 0], dtype = Float32\<rparr> \<and>
   float_le (elems \<lparr>shape = [3], elems = [Fin 0, Fin 1, Fin 0], dtype = Float32\<rparr> ! 0)
            (elems \<lparr>shape = [3], elems = [Fin 1, Fin 1, Fin 0], dtype = Float32\<rparr> ! 0)"
proof -
  define p where "p = \<lparr>shape = [3], elems = [Fin (1 / 2), Fin 1, NaN], dtype = Float32\<rparr>"
  define r1 where "r1 = \<lparr>shape = [3], elems = [Fin 1, Fin 1, Fin 0], dtype = Float32\<rparr>"
  define r2 where "r2 = \<lparr>shape = [3], elems = [Fin 0, Fin 1, Fin 0], dtype = Float32\<rparr>"
  define t1 where "t1 = Fin (1 / 4)"
  define t2 where "t2 = Fin (3 / 4)"
  have le: "float_le t1 t2"
    by (simp add: t1_def t2_def)
  have small: "\<bar>1 / 4 :: real\<bar> \<le> max_finite Float32" "\<bar>3 / 4 :: real\<bar> \<le> max_finite Float32"
    by (simp_all add: max_finite_def)
  have c1: "scalar_to_dtype (dtype p) (thresh_arg (Some t1)) = Inr (Fin (1 / 4))"
    using small by (simp add: p_def t1_def scalar_to_dtype_def thresh_arg_def round_to_Float32_quarters)
  have c2: "scalar_to_dtype (dtype p) (thresh_arg (Some t2)) = Inr (Fin (3 / 4))"
    using small by (simp add: p_def t2_def scalar_to_dtype_def thresh_arg_def round_to_Float32_quarters)
  have r1: "analyze_pred p (Some t1) = Inr r1"
    unfolding analyze_pred_returns [OF c1] by (simp add: p_def r1_def float_ge_def bool_to_float_def)
  have r2: "analyze_pred p (Some t2) = Inr r2"
    unfolding analyze_pred_returns [OF c2] by (simp add: p_def r2_def float_ge_def bool_to_float_def)
  from analyze_pred_antitone [of p None t1 t2] le
  have "\<forall>r1 r2. analyze_pred p (Some t1) = Inr r1 \<and> analyze_pred p (Some t2) = Inr r2 \<longrightarrow>
         (\<forall>i < length (elems p). float_le (elems r2 ! i) (elems r1 ! i))"
    by blast
  with r1 r2 have all: "\<forall>i < length (elems p). float_le (elems r2 ! i) (elems r1 ! i)"
    by blast
  have "float_le (elems r2 ! 0) (elems r1 ! 0)"
    using all [rule_format, of 0] by (simp add: p_def)
  with le r1 r2 show ?thesis
    unfolding p_def r1_def r2_def t1_def t2_def by (intro conjI)
qed

subsection \<open>\<open>ImageItemList.get\<close> opens the stored reference and records its size\<close>

lemma py_index_in_range:
  "- int (length xs) \<le> i \<Longrightarrow> i < int (length xs) \<Longrightarrow>
     py_index xs i = Inr (xs ! nat (if i < 0 then int (length xs) + i else i))"
  by (simp add: py_index_def)

lemma py_index_out_of_range:
  "i < - int (length xs) \<or> int (length xs) \<le> i \<Longrightarrow> py_index xs i = Inl IndexError"
  by (auto simp: py_index_def)

text \<open>
  C2. For every index \<open>i\<close> in range of an \<open>ImageItemList\<close> (which is then non-empty; a
  negative index counts from the end, as Python's indexing does), \<open>get i\<close> reads the
  stored reference \<open>items[i]\<close>, opens it with \<open>open\<close>, which is \<open>open_image\<close>, stores the
  size of the opened item under the key \<open>i\<close> of \<open>sizes\<close> and returns the opened item. The
  stored references stay as they were, and so does every entry of \<open>sizes\<close> under another
  key. The opened item is what \<open>open_image\<close> returns when it does not raise.
\<close>

theorem get_opens_item_and_stores_size:
  assumes lo: "- int (length (items self)) \<le> i"
    and hi: "i < int (length (items self))"
    and opened:
      "open_image (items self ! nat (if i < 0 then int (length (items self)) + i else i)) = Inr res"
  shows "items self \<noteq> [] \<and>
    ItemList_get self i = Inr (items self ! nat (if i < 0 then int (length (items self)) + i else i)) \<and>
    (\<forall>fn. open_fn open_image fn = open_image fn) \<and>
    (\<exists>self'. get open_image size_of self i = Inr (res, self') \<and>
       items self' = items self \<and>
       sizes self' i = Some (size_of res) \<and>
       (\<forall>k. k \<noteq> i \<longrightarrow> sizes self' k = sizes self k))"
proof -
  let ?fn = "items self ! nat (if i < 0 then int (length (items self)) + i else i)"
  have nonempty: "items self \<noteq> []"
    using lo hi by auto
  have rd: "ItemList_get self i = Inr ?fn"
    unfolding ItemList_get_def using lo hi by (rule py_index_in_range)
  have op: "open_fn open_image ?fn = Inr res"
    using opened by (simp add: open_fn_def)
  have "get open_image size_of self i =
      Inr (res, self\<lparr>sizes := (sizes self)(i \<mapsto> size_of res)\<rparr>)"
    by (simp add: get_def rd op)
  then have "\<exists>self'. get open_image size_of self i = Inr (res, self') \<and>
       items self' = items self \<and>
       sizes self' i = Some (size_of res) \<and>
       (\<forall>k. k \<noteq> i \<longrightarrow> sizes self' k = sizes self k)"
    by simp
  with nonempty rd show ?thesis
    by (simp add: open_fn_def)
qed

theorem get_opens_item_and_stores_size_witness:
  "- int (length (items \<lparr>items = [''a.png'', ''b.png''], sizes = [7 \<mapsto> (3::nat, 4::nat)]\<rparr>)) \<le> -1 \<and>
   -1 < int (length (items \<lparr>items = [''a.png'', ''b.png''], sizes = [7 \<mapsto> (3::nat, 4::nat)]\<rparr>)) \<and>
   (\<exists>self'. get (\<lambda>fn. if fn = ''b.png'' then Inr (length fn) else Inl IOError) (\<lambda>img. (img, img))
        \<lparr>items = [''a.png'', ''b.png''], sizes = [7 \<mapsto> (3, 4)]\<rparr> (-1) = Inr (5, self') \<and>
      items self' = [''a.png'', ''b.png''] \<and>
      sizes self' (-1) = Some (5, 5) \<and>
      sizes self' 7 = Some (3, 4))"
proof -
  let ?s = "\<lparr>items = [''a.png'', ''b.png''], sizes = [7 \<mapsto> (3::nat, 4::nat)]\<rparr>"
  let ?open = "\<lambda>fn. if fn = ''b.png'' then Inr (length fn) else (Inl IOError :: py_error + nat)"
  have lo: "- int (length (items ?s)) \<le> -1"
    by simp
  have hi: "-1 < int (length (items ?s))"
    by simp
  have opened: "?open (items ?s ! nat (if (-1::int) < 0 then int (length (items ?s)) + (-1) else -1))
      = Inr 5"
    by simp
  from get_opens_item_and_stores_size [of ?s "-1" ?open 5 "\<lambda>img. (img, img)", OF lo hi opened]
  obtain self' where g: "get ?open (\<lambda>img. (img, img)) ?s (-1) = Inr (5, self')"
    and it: "items self' = items ?s"
    and sz: "sizes self' (-1) = Some (5, 5)"
    and fr: "\<forall>k. k \<noteq> -1 \<longrightarrow> sizes self' k = sizes ?s k"
    by blast
  from fr have "sizes self' 7 = sizes ?s 7"
    by simp
  then have "sizes self' 7 = Some (3, 4)"
    by simp
  with g it sz lo hi show ?thesis
    by auto
qed

subsection \<open>\<open>SegmentationProcessor\<close> only sets \<open>classes\<close> and \<open>c\<close>\<close>

lemma process_returns:
  "py_len (classes p) = Inr n \<Longrightarrow>
     process p ds = Inr (p, ds(''classes'' \<mapsto> classes p, ''c'' \<mapsto> PInt (int n)))"
  by (simp add: process_def py_setattr_def)

lemma process_raises: "py_len (classes p) = Inl e \<Longrightarrow> process p ds = Inl e"
  by (simp add: process_def)

text \<open>
  C4. For every dataset \<open>ds0\<close> that has classes with a length and every dataset \<open>ds\<close>, a
  \<open>SegmentationProcessor\<close> built from \<open>ds0\<close> stores \<open>ds0.classes\<close>, and \<open>process ds\<close> sets
  \<open>ds.classes\<close> to the stored classes and \<open>ds.c\<close> to their length and does nothing else:
  every other attribute of \<open>ds\<close> keeps its value (or stays unset), and the processor is
  after the call what it was before.
\<close>

theorem process_sets_classes_and_c_only:
  assumes has: "ds0 ''classes'' = Some cs"
    and sized: "py_len cs = Inr n"
  shows "\<exists>p. SegmentationProcessor_init ds0 = Inr p \<and> classes p = cs \<and>
    (\<exists>ds'. process p ds = Inr (p, ds') \<and>
       ds' ''classes'' = Some cs \<and>
       ds' ''c'' = Some (PInt (int n)) \<and>
       (\<forall>a. a \<noteq> ''classes'' \<and> a \<noteq> ''c'' \<longrightarrow> ds' a = ds a))"
proof -
  let ?p = "\<lparr>classes = cs\<rparr>"
  have init: "SegmentationProcessor_init ds0 = Inr ?p"
    using has by (simp add: SegmentationProcessor_init_def py_getattr_def)
  have len: "py_len (classes ?p) = Inr n"
    using sized by simp
  have "process ?p ds = Inr (?p, ds(''classes'' \<mapsto> classes ?p, ''c'' \<mapsto> PInt (int n)))"
    using len by (rule process_returns)
  then have "\<exists>ds'. process ?p ds = Inr (?p, ds') \<and>
       ds' ''classes'' = Some cs \<and>
       ds' ''c'' = Some (PInt (int n)) \<and>
       (\<forall>a. a \<noteq> ''classes'' \<and> a \<noteq> ''c'' \<longrightarrow> ds' a = ds a)"
    by simp
  with init show ?thesis
    by auto
qed

theorem process_sets_classes_and_c_only_witness:
  "[''classes'' \<mapsto> PList [PStr ''sky'', PStr ''road'']] ''classes''
     = Some (PList [PStr ''sky'', PStr ''road'']) \<and>
   py_len (PList [PStr ''sky'', PStr ''road'']) = Inr 2 \<and>
   (\<exists>p ds'. SegmentationProcessor_init [''classes'' \<mapsto> PList [PStr ''sky'', PStr ''road'']] = Inr p \<and>
      process p [''path'' \<mapsto> PStr ''data'', ''c'' \<mapsto> PInt 9] = Inr (p, ds') \<and>
      ds' ''classes'' = Some (PList [PStr ''sky'', PStr ''road'']) \<and>
      ds' ''c'' = Some (PInt 2) \<and>
      ds' ''path'' = Some (PStr ''data'') \<and>
      ds' ''x'' = None)"
proof -
  let ?cs = "PList [PStr ''sky'', PStr ''road'']"
  let ?src = "[''classes'' \<mapsto> ?cs]"
  let ?ds = "[''path'' \<mapsto> PStr ''data'', ''c'' \<mapsto> PInt 9]"
  have has: "?src ''classes'' = Some ?cs"
    by simp
  have sized: "py_len ?cs = Inr 2"
    by simp
  from process_sets_classes_and_c_only [of ?src ?cs 2 ?ds, OF has sized]
  obtain p ds' where init: "SegmentationProcessor_init ?src = Inr p"
    and pr: "process p ?ds = Inr (p, ds')"
    and cl: "ds' ''classes'' = Some ?cs"
    and c: "ds' ''c'' = Some (PInt (int 2))"
    and fr: "\<forall>a. a \<noteq> ''classes'' \<and> a \<noteq> ''c'' \<longrightarrow> ds' a = ?ds a"
    by blast
  from fr have "ds' ''path'' = ?ds ''path''" and "ds' ''x'' = ?ds ''x''"
    by simp_all
  then have "ds' ''path'' = Some (PStr ''data'')" and "ds' ''x'' = None"
    by simp_all
  moreover from c have "ds' ''c'' = Some (PInt 2)"
    by simp
  ultimately have "SegmentationProcessor_init ?src = Inr p \<and>
      process p ?ds = Inr (p, ds') \<and>
      ds' ''classes'' = Some ?cs \<and>
      ds' ''c'' = Some (PInt 2) \<and>
      ds' ''path'' = Some (PStr ''data'') \<and>
      ds' ''x'' = None"
    using init pr cl by blast
  then have "\<exists>p ds'. SegmentationProcessor_init ?src = Inr p \<and>
      process p ?ds = Inr (p, ds') \<and>
      ds' ''classes'' = Some ?cs \<and>
      ds' ''c'' = Some (PInt 2) \<and>
      ds' ''path'' = Some (PStr ''data'') \<and>
      ds' ''x'' = None"
    by blast
  with has sized show ?thesis
    by blast
qed

subsection \<open>\<open>process\<close> is idempotent and overwrites\<close>

text \<open>
  C10. Calling \<open>process\<close> twice on a dataset leaves it, and the processor, as one call
  does. What \<open>ds.classes\<close> and \<open>ds.c\<close> are after the call is fixed by the classes the
  processor holds: two datasets that differ in any way before the call agree on both
  attributes after it, \<open>classes\<close> being the stored classes and \<open>c\<close> their length, and
  whether the call raises does not depend on the dataset either.
\<close>

theorem process_idempotent_overwriting:
  "process_twice p ds = process p ds \<and>
   (\<forall>q1 d1 q2 d2. process p ds1 = Inr (q1, d1) \<and> process p ds2 = Inr (q2, d2) \<longrightarrow>
      q1 = p \<and> q2 = p \<and>
      d1 ''classes'' = Some (classes p) \<and> d2 ''classes'' = Some (classes p) \<and>
      d1 ''c'' = d2 ''c'' \<and>
      (\<exists>n. py_len (classes p) = Inr n \<and> d1 ''c'' = Some (PInt (int n)))) \<and>
   (\<forall>e. process p ds1 = Inl e \<longleftrightarrow> process p ds2 = Inl e)"
proof -
  obtain r where r: "py_len (classes p) = r"
    by blast
  show ?thesis
  proof (cases r)
    case (Inl e)
    with r have raises: "\<And>d. process p d = Inl e"
      by (simp add: process_raises)
    then show ?thesis
      by (simp add: process_twice_def)
  next
    case (Inr n)
    with r have len: "py_len (classes p) = Inr n"
      by simp
    have ret: "\<And>d. process p d = Inr (p, d(''classes'' \<mapsto> classes p, ''c'' \<mapsto> PInt (int n)))"
      using len by (rule process_returns)
    have twice: "process_twice p ds = process p ds"
      by (simp add: process_twice_def ret)
    have same: "\<forall>q1 d1 q2 d2. process p ds1 = Inr (q1, d1) \<and> process p ds2 = Inr (q2, d2) \<longrightarrow>
      q1 = p \<and> q2 = p \<and>
      d1 ''classes'' = Some (classes p) \<and> d2 ''classes'' = Some (classes p) \<and>
      d1 ''c'' = d2 ''c'' \<and>
      (\<exists>n. py_len (classes p) = Inr n \<and> d1 ''c'' = Some (PInt (int n)))"
      using len by (auto simp: ret)
    have err: "\<forall>e. process p ds1 = Inl e \<longleftrightarrow> process p ds2 = Inl e"
      by (simp add: ret)
    from twice same err show ?thesis
      by blast
  qed
qed

theorem process_idempotent_overwriting_witness:
  "(\<exists>d1 d2.
      process \<lparr>classes = PList [PStr ''sky'', PStr ''road'', PStr ''car'']\<rparr>
        [''classes'' \<mapsto> PNone, ''c'' \<mapsto> PInt 9] = Inr (\<lparr>classes = PList [PStr ''sky'', PStr ''road'', PStr ''car'']\<rparr>, d1) \<and>
      process \<lparr>classes = PList [PStr ''sky'', PStr ''road'', PStr ''car'']\<rparr>
        Map.empty = Inr (\<lparr>classes = PList [PStr ''sky'', PStr ''road'', PStr ''car'']\<rparr>, d2) \<and>
      d1 ''classes'' = d2 ''classes'' \<and> d1 ''c'' = Some (PInt 3) \<and> d2 ''c'' = Some (PInt 3)) \<and>
   process_twice \<lparr>classes = PList [PStr ''sky'', PStr ''road'', PStr ''car'']\<rparr>
        [''classes'' \<mapsto> PNone, ''c'' \<mapsto> PInt 9] =
     process \<lparr>classes = PList [PStr ''sky'', PStr ''road'', PStr ''car'']\<rparr>
        [''classes'' \<mapsto> PNone, ''c'' \<mapsto> PInt 9]"
proof -
  let ?p = "\<lparr>classes = PList [PStr ''sky'', PStr ''road'', PStr ''car'']\<rparr>"
  let ?a = "[''classes'' \<mapsto> PNone, ''c'' \<mapsto> PInt 9]"
  let ?b = "Map.empty :: pyobj"
  let ?da = "?a(''classes'' \<mapsto> classes ?p, ''c'' \<mapsto> PInt 3)"
  let ?db = "?b(''classes'' \<mapsto> classes ?p, ''c'' \<mapsto> PInt 3)"
  note th = process_idempotent_overwriting [of ?p ?a ?a ?b]
  have ra: "process ?p ?a = Inr (?p, ?da)"
    by (simp add: process_def py_setattr_def)
  have rb: "process ?p ?b = Inr (?p, ?db)"
    by (simp add: process_def py_setattr_def)
  from th have "process ?p ?a = Inr (?p, ?da) \<and> process ?p ?b = Inr (?p, ?db) \<longrightarrow>
      ?da ''classes'' = Some (classes ?p) \<and> ?db ''classes'' = Some (classes ?p) \<and>
      ?da ''c'' = ?db ''c''"
    by blast
  with ra rb have agree: "?da ''classes'' = ?db ''classes'' \<and> ?da ''c'' = ?db ''c''"
    by simp
  have c: "?da ''c'' = Some (PInt 3)" "?db ''c'' = Some (PInt 3)"
    by simp_all
  from th have twice: "process_twice ?p ?a = process ?p ?a"
    by blast
  from ra rb agree c have "\<exists>d1 d2. process ?p ?a = Inr (?p, d1) \<and> process ?p ?b = Inr (?p, d2) \<and>
      d1 ''classes'' = d2 ''classes'' \<and> d1 ''c'' = Some (PInt 3) \<and> d2 ''c'' = Some (PInt 3)"
    by blast
  with twice show ?thesis
    by blast
qed

subsection \<open>\<open>MyCustomItemList.new\<close> never returns a list\<close>









subsection \<open>The integer square root\<close>

lemma py_int_sqrt_unique:
  assumes "r * r \<le> n" "n < Suc r * Suc r"
  shows "py_int_sqrt n = r"
proof -
  have "real r * real r \<le> real n"
    using assms(1) by (metis of_nat_le_iff of_nat_mult)
  then have lo: "real r \<le> sqrt (real n)"
    by (simp add: real_le_rsqrt power2_eq_square)
  have "real n < real (Suc r) * real (Suc r)"
    using assms(2) by (metis of_nat_less_iff of_nat_mult)
  then have hi: "sqrt (real n) < real (Suc r)"
    by (simp add: real_less_lsqrt power2_eq_square)
  have "\<lfloor>sqrt (real n)\<rfloor> = int r"
    using lo hi by (simp add: floor_eq_iff)
  then show ?thesis
    by (simp add: py_int_sqrt_def)
qed

lemma py_int_sqrt_bounds:
  "py_int_sqrt n * py_int_sqrt n \<le> n \<and> n < Suc (py_int_sqrt n) * Suc (py_int_sqrt n)"
proof -
  let ?s = "sqrt (real n)"
  let ?r = "py_int_sqrt n"
  have nonneg: "0 \<le> ?s" by simp
  then have fl: "0 \<le> \<lfloor>?s\<rfloor>" by simp
  have r: "real ?r = of_int \<lfloor>?s\<rfloor>"
    using fl by (simp add: py_int_sqrt_def)
  have "real ?r \<le> ?s" using r by simp
  then have "real ?r * real ?r \<le> ?s * ?s"
    by (intro mult_mono) simp_all
  then have "real (?r * ?r) \<le> real n" by simp
  then have lo: "?r * ?r \<le> n" by (simp only: of_nat_le_iff)
  have "?s < real ?r + 1" using r by linarith
  then have "?s * ?s < (real ?r + 1) * (real ?r + 1)"
    using nonneg by (intro mult_strict_mono') simp_all
  then have "real n < real (Suc ?r * Suc ?r)" by (simp add: algebra_simps)
  then have hi: "n < Suc ?r * Suc ?r" by (simp only: of_nat_less_iff)
  from lo hi show ?thesis by blast
qed

lemma isqrt_upto_bounds:
  "isqrt_upto n k * isqrt_upto n k \<le> n \<and> isqrt_upto n k \<le> k \<and>
   (\<forall>r. isqrt_upto n k < r \<and> r \<le> k \<longrightarrow> n < r * r)"
proof (induction k)
  case 0
  show ?case by auto
next
  case (Suc k)
  show ?case
  proof (cases "Suc k * Suc k \<le> n")
    case True
    then show ?thesis by simp
  next
    case False
    then have eq: "isqrt_upto n (Suc k) = isqrt_upto n k" by simp
    have "\<forall>r. isqrt_upto n k < r \<and> r \<le> Suc k \<longrightarrow> n < r * r"
    proof (intro allI impI)
      fix r assume a: "isqrt_upto n k < r \<and> r \<le> Suc k"
      show "n < r * r"
      proof (cases "r = Suc k")
        case True
        with False show ?thesis by simp
      next
        case False
        with a have "r \<le> k" by simp
        with a Suc.IH show ?thesis by blast
      qed
    qed
    with Suc.IH eq show ?thesis by simp
  qed
qed

lemma py_int_sqrt_code [code]: "py_int_sqrt n = isqrt_upto n n"
proof (rule py_int_sqrt_unique)
  show "isqrt_upto n n * isqrt_upto n n \<le> n"
    using isqrt_upto_bounds by blast
  show "n < Suc (isqrt_upto n n) * Suc (isqrt_upto n n)"
  proof (cases "isqrt_upto n n < n")
    case True
    then have "isqrt_upto n n < Suc (isqrt_upto n n) \<and> Suc (isqrt_upto n n) \<le> n" by simp
    then show ?thesis using isqrt_upto_bounds [of n n] by blast
  next
    case False
    then have "isqrt_upto n n = n" using isqrt_upto_bounds [of n n] by simp
    then show ?thesis by simp
  qed
qed


subsection \<open>\<open>show_xys\<close> reads the first \<open>rows * rows\<close> positions\<close>

lemma reads_x_append: "reads_x (tr @ tr') = reads_x tr @ reads_x tr'"
  by (induction tr rule: reads_x.induct) simp_all

lemma reads_y_append: "reads_y (tr @ tr') = reads_y tr @ reads_y tr'"
  by (induction tr rule: reads_y.induct) simp_all

lemma show_xys_loop_returns:
  "i + length axl \<le> length xs \<Longrightarrow> i + length axl \<le> length ys \<Longrightarrow>
     \<exists>tr. show_xys_loop xs ys i axl = Inr tr \<and>
       reads_x tr = [i..<i + length axl] \<and> reads_y tr = [i..<i + length axl]"
proof (induction axl arbitrary: i)
  case Nil
  show ?case by simp
next
  case (Cons ax axl)
  from Cons.prems have ix: "py_index xs (int i) = Inr (xs ! i)"
    and iy: "py_index ys (int i) = Inr (ys ! i)"
    by (simp_all add: py_index_def)
  from Cons.prems have "Suc i + length axl \<le> length xs" "Suc i + length axl \<le> length ys"
    by simp_all
  from Cons.IH [OF this] obtain tr where tr: "show_xys_loop xs ys (Suc i) axl = Inr tr"
    and rx: "reads_x tr = [Suc i..<Suc i + length axl]"
    and ry: "reads_y tr = [Suc i..<Suc i + length axl]"
    by blast
  have "show_xys_loop xs ys i (ax # axl) =
      Inr (ReadX i # ReadY i # Show (xs ! i) ax (ys ! i) # tr)"
    by (simp add: ix iy tr)
  moreover have "[i..<i + length (ax # axl)] = i # [Suc i..<Suc i + length axl]"
    by (subst upt_rec) simp
  ultimately show ?case
    using rx ry by simp
qed

lemma length_grid: "length (concat (map (\<lambda>r. map (Axes r) [0..<c]) [0..<n])) = n * c"
  by (induction n) simp_all

lemma axes_list_length:
  assumes "0 < rows"
  shows "\<exists>axs axl. subplots rows rows = Inr axs \<and>
     (if rows > 1 then flatten axs else Inr [axs]) = Inr axl \<and> length axl = rows * rows"
proof (cases "rows = 1")
  case True
  then show ?thesis by (simp add: subplots_def)
next
  case False
  with assms have "1 < rows" by simp
  then show ?thesis by (simp add: subplots_def length_grid)
qed

text \<open>
  C5. For every pair of non-empty lists \<open>xs\<close> and \<open>ys\<close> of equal length, \<open>show_xys\<close> runs
  to its end, and it reads \<open>xs\<close> and \<open>ys\<close> exactly at the positions \<open>0\<close> to
  \<open>rows * rows - 1\<close>, in this order, where \<open>rows\<close> is the floor of the square root of the
  length: \<open>1 \<le> rows\<close> and \<open>rows * rows \<le> len(xs) < (rows + 1) * (rows + 1)\<close>, so that every
  read is in bounds. When \<open>rows \<le> 1\<close>, position 0 is the only one read.
\<close>

theorem show_xys_reads_in_bounds:
  assumes len: "length xs = length ys"
    and nonempty: "xs \<noteq> []"
  shows "1 \<le> py_int_sqrt (length xs) \<and>
    py_int_sqrt (length xs) * py_int_sqrt (length xs) \<le> length xs \<and>
    length xs < (py_int_sqrt (length xs) + 1) * (py_int_sqrt (length xs) + 1) \<and>
    (\<exists>tr. show_xys xs ys = Inr tr \<and>
       reads_x tr = [0..<py_int_sqrt (length xs) * py_int_sqrt (length xs)] \<and>
       reads_y tr = [0..<py_int_sqrt (length xs) * py_int_sqrt (length xs)] \<and>
       (py_int_sqrt (length xs) \<le> 1 \<longrightarrow> reads_x tr = [0] \<and> reads_y tr = [0]))"
proof -
  define rows where "rows = py_int_sqrt (length xs)"
  have sq: "rows * rows \<le> length xs" and up: "length xs < Suc rows * Suc rows"
    using py_int_sqrt_bounds [of "length xs"] by (simp_all add: rows_def)
  have pos: "1 \<le> rows"
  proof (rule ccontr)
    assume "\<not> 1 \<le> rows"
    then have "rows = 0" by simp
    with up nonempty show False by simp
  qed
  then obtain axs axl where sp: "subplots rows rows = Inr axs"
    and fl: "(if rows > 1 then flatten axs else Inr [axs]) = Inr axl"
    and n: "length axl = rows * rows"
    using axes_list_length [of rows] by auto
  from sq len n have "0 + length axl \<le> length xs" "0 + length axl \<le> length ys"
    by simp_all
  from show_xys_loop_returns [OF this] n obtain tr where
    tr: "show_xys_loop xs ys 0 axl = Inr tr"
    and rx: "reads_x tr = [0..<rows * rows]" and ry: "reads_y tr = [0..<rows * rows]"
    by auto
  have run: "show_xys xs ys = Inr (tr @ [TightLayout])"
    using sp fl tr by (simp add: show_xys_def Let_def rows_def [symmetric])
  have rx': "reads_x (tr @ [TightLayout]) = [0..<rows * rows]"
    and ry': "reads_y (tr @ [TightLayout]) = [0..<rows * rows]"
    using rx ry by (simp_all add: reads_x_append reads_y_append)
  have one: "rows \<le> 1 \<longrightarrow> [0..<rows * rows] = [0]"
    using pos by (auto simp: le_Suc_eq)
  from pos sq up run rx' ry' one show ?thesis
    unfolding rows_def [symmetric] by auto
qed

theorem show_xys_reads_in_bounds_witness:
  "length [''a'', ''b'', ''c'', ''d'', ''e''] = length [1, 2, 3, 4, 5 :: nat] \<and>
   [''a'', ''b'', ''c'', ''d'', ''e''] \<noteq> [] \<and>
   py_int_sqrt (length [''a'', ''b'', ''c'', ''d'', ''e'']) = 2 \<and>
   (\<exists>tr. show_xys [''a'', ''b'', ''c'', ''d'', ''e''] [1, 2, 3, 4, 5 :: nat] = Inr tr \<and>
      reads_x tr = [0, 1, 2, 3] \<and> reads_y tr = [0, 1, 2, 3])"
proof -
  let ?xs = "[''a'', ''b'', ''c'', ''d'', ''e'']"
  let ?ys = "[1, 2, 3, 4, 5 :: nat]"
  have len: "length ?xs = length ?ys"
    by simp
  have nonempty: "?xs \<noteq> []"
    by simp
  have rows: "py_int_sqrt (length ?xs) = 2"
    by (rule py_int_sqrt_unique) simp_all
  have upt: "[0..<py_int_sqrt (length ?xs) * py_int_sqrt (length ?xs)] = [0, 1, 2, 3]"
    unfolding rows by (simp add: upt_rec)
  from show_xys_reads_in_bounds [OF len nonempty]
  obtain tr where "show_xys ?xs ?ys = Inr tr"
    and "reads_x tr = [0..<py_int_sqrt (length ?xs) * py_int_sqrt (length ?xs)]"
    and "reads_y tr = [0..<py_int_sqrt (length ?xs) * py_int_sqrt (length ?xs)]"
    by blast
  with upt have "\<exists>tr. show_xys ?xs ?ys = Inr tr \<and>
      reads_x tr = [0, 1, 2, 3] \<and> reads_y tr = [0, 1, 2, 3]"
    by simp
  with len nonempty rows show ?thesis
    by blast
qed

subsection \<open>\<open>show_xyzs\<close> on two rows or more, and on one\<close>

lemma axs_index2_grid:
  "i < n \<Longrightarrow> j < c \<Longrightarrow>
     axs_index2 (Arr2 (map (\<lambda>r. map (Axes r) [0..<c]) [0..<n])) i j = Inr (AxesObj (Axes i j))"
  by simp

lemma show_xyzs_loop_grid:
  "i + length rest \<le> n \<Longrightarrow>
     show_xyzs_loop (Arr2 (map (\<lambda>r. map (Axes r) [0..<2]) [0..<n])) i rest =
       Inr (concat (map (\<lambda>(k, x, y, z).
              [Show x (AxesObj (Axes k 0)) y, Show x (AxesObj (Axes k 1)) z])
            (enumerate i rest)))"
proof (induction rest arbitrary: i)
  case Nil
  show ?case by simp
next
  case (Cons t rest)
  obtain x y z where t: "t = (x, y, z)"
    by (cases t) auto
  from Cons.prems have i: "i < n" and "Suc i + length rest \<le> n"
    by simp_all
  note ih = Cons.IH [OF this(2)]
  have a0: "axs_index2 (Arr2 (map (\<lambda>r. map (Axes r) [0..<2]) [0..<n])) i 0 = Inr (AxesObj (Axes i 0))"
    using i by (intro axs_index2_grid) simp_all
  have a1: "axs_index2 (Arr2 (map (\<lambda>r. map (Axes r) [0..<2]) [0..<n])) i 1 = Inr (AxesObj (Axes i 1))"
    using i by (intro axs_index2_grid) simp_all
  show ?case
    unfolding t by (simp only: show_xyzs_loop.simps a0 a1 ih sum.case enumerate_simps
        list.map concat.simps prod.case append_Cons append_Nil)
qed

lemma show_xyzs_rows:
  assumes "length ys = length xs" "length zs = length xs" "2 \<le> length xs"
  shows "show_xyzs xs ys zs =
    Inr (Suptitle # concat (map (\<lambda>i.
      [Show (xs ! i) (AxesObj (Axes i 0)) (ys ! i), Show (xs ! i) (AxesObj (Axes i 1)) (zs ! i)])
      [0..<length xs]))"
proof -
  let ?l = "zip xs (zip ys zs)"
  let ?f = "\<lambda>(k, x, y, z). [Show x (AxesObj (Axes k 0)) y, Show x (AxesObj (Axes k 1)) z]"
  let ?g = "\<lambda>i. [Show (xs ! i) (AxesObj (Axes i 0)) (ys ! i),
                 Show (xs ! i) (AxesObj (Axes i 1)) (zs ! i)]"
  have n: "length ?l = length xs"
    using assms by simp
  have sp: "subplots (length xs) 2 = Inr (Arr2 (map (\<lambda>r. map (Axes r) [0..<2]) [0..<length xs]))"
    using assms(3) by (auto simp: subplots_def)
  have "0 + length ?l \<le> length xs"
    using n by simp
  note lp = show_xyzs_loop_grid [OF this]
  have same: "map ?f (enumerate 0 ?l) = map ?g [0..<length xs]"
    using assms by (auto intro!: nth_equalityI simp: nth_enumerate_eq)
  have "show_xyzs xs ys zs = Inr (Suptitle # concat (map ?f (enumerate 0 ?l)))"
    by (simp only: show_xyzs_def sp lp sum.case)
  with same show ?thesis
    by simp
qed

text \<open>
  C6. For lists \<open>xs\<close>, \<open>ys\<close>, \<open>zs\<close> of equal length, \<open>show_xyzs\<close> is to iterate \<open>len(xs)\<close>
  times and to show, at iteration \<open>i\<close>, \<open>xs[i]\<close> with \<open>ys[i]\<close> in the first column and
  \<open>xs[i]\<close> with \<open>zs[i]\<close> in the second; \<open>show_xyzs_rows\<close> above proves this for two items
  or more. On a single item the method does not get that far: \<^verbatim>\<open>plt.subplots(1, 2)\<close>
  returns a one-dimensional array of two axes, \<^verbatim>\<open>axs[0,0]\<close> in the first iteration raises
  \<open>IndexError\<close>, and nothing is shown. \<open>show_xys\<close> guards the squeezed return value of
  \<open>plt.subplots\<close> (\<^verbatim>\<open>if rows > 1 else [axs]\<close>); \<open>show_xyzs\<close> does not.
\<close>

theorem show_xyzs_single_row_raises:
  "show_xyzs [''cat.png''] [''cat''] [''dog''] = Inl IndexError"
  by (simp add: show_xyzs_def subplots_def)

end
